theory Spec2Isabelle
  imports Complex_Main "HOL-Library.Multiset"
begin

section \<open>Data model\<close>

text \<open>
  The add-on owns no data structure of its own: every function of \<^verbatim>\<open>utils.py\<close> and every
  operator of \<^verbatim>\<open>operators.py\<close> mutates the host application's object graph. The part of
  that graph the code reads and writes is modelled here.

  A shape key (\<^verbatim>\<open>bpy.types.ShapeKey\<close>) is a named entry with a blend weight and a
  vertex-group mask. Its vertex data are not modelled.
\<close>

record shapekey =
  name :: string
  kb_value :: real
  vertex_group :: string

text \<open>
  A mesh object. \<open>shape_keys\<close> is \<^verbatim>\<open>obj.data.shape_keys.key_blocks\<close>, and \<open>None\<close> when
  \<^verbatim>\<open>obj.data.shape_keys\<close> is \<^verbatim>\<open>None\<close>. \<open>shapenr\<close> is the host's one-based slot of
  the active shape key, with 0 for "no active shape key"; the Python properties
  \<^verbatim>\<open>active_shape_key_index\<close> and \<^verbatim>\<open>active_shape_key\<close> are derived from it below.
  \<open>vertex_groups\<close> lists the names of the object's vertex groups. \<open>obj_type\<close> and
  \<open>mode\<close> are read by the operators' \<^verbatim>\<open>poll\<close> only.
\<close>

record object =
  obj_type :: string
  mode :: string
  shape_keys :: "shapekey list option"
  shapenr :: nat
  vertex_groups :: "string list"

text \<open>
  Exceptions of the Python code are values: \<open>RuntimeError\<close> is raised by a
  \<^verbatim>\<open>bpy.ops\<close> call whose poll fails, \<open>ValueError\<close> by \<^verbatim>\<open>list.index\<close>,
  \<open>AttributeError\<close> by an attribute access on \<^verbatim>\<open>None\<close>, \<open>ReferenceError\<close> by the
  use of a collection the host has freed, \<open>TypeError\<close> by comparing \<^verbatim>\<open>None\<close> with
  an integer.
\<close>

datatype error = RuntimeError | ValueError | AttributeError | ReferenceError | TypeError

definition rbind :: "error + 'a \<Rightarrow> ('a \<Rightarrow> error + 'b) \<Rightarrow> error + 'b" where
  "rbind m f = (case m of Inl e \<Rightarrow> Inl e | Inr x \<Rightarrow> f x)"

text \<open>\<^verbatim>\<open>for _ in range(n): op()\<close>, stopping at the first exception.\<close>

primrec repeat :: "nat \<Rightarrow> (object \<Rightarrow> error + object) \<Rightarrow> object \<Rightarrow> error + object" where
  "repeat 0 f obj = Inr obj"
| "repeat (Suc n) f obj = rbind (f obj) (repeat n f)"

text \<open>\<^verbatim>\<open>s.endswith(suf)\<close>\<close>

definition endswith :: "string \<Rightarrow> string \<Rightarrow> bool" where
  "endswith s suf = (length suf \<le> length s \<and> drop (length s - length suf) s = suf)"

text \<open>\<^verbatim>\<open>xs.index(x)\<close>: the first position of \<open>x\<close>; \<open>None\<close> stands for ValueError.\<close>

fun index_of :: "'a list \<Rightarrow> 'a \<Rightarrow> nat option" where
  "index_of [] x = None"
| "index_of (y # ys) x = (if y = x then Some 0 else map_option Suc (index_of ys x))"

definition names :: "shapekey list \<Rightarrow> string list" where
  "names ks = map name ks"

section \<open>The host interface\<close>

text \<open>
  The operations below are the host's, not the add-on's; they are modelled after the
  host's behaviour for a mesh object that is the context's object, in a mode in which
  the shape-key operators are available (the operators' \<^verbatim>\<open>poll\<close> admits no other).
\<close>

definition active_shape_key_index :: "object \<Rightarrow> nat" where
  "active_shape_key_index obj = shapenr obj - 1"

definition set_active_shape_key_index :: "nat \<Rightarrow> object \<Rightarrow> object" where
  "set_active_shape_key_index i obj = obj\<lparr>shapenr := Suc i\<rparr>"

definition active_shape_key :: "object \<Rightarrow> shapekey option" where
  "active_shape_key obj =
     (case shape_keys obj of
        None \<Rightarrow> None
      | Some ks \<Rightarrow>
          if 1 \<le> shapenr obj \<and> shapenr obj \<le> length ks
          then Some (ks ! (shapenr obj - 1)) else None)"

text \<open>
  Names in the host. A \<open>string\<close> is the UTF-8 encoding of the Python string, byte by
  byte; concatenation, equality and \<^verbatim>\<open>endswith\<close> agree with Python's on it.

  The host stores a name in a buffer of 64 bytes: it copies whole UTF-8 characters as
  long as the next one leaves room for the terminator (\<open>strncpy_utf8\<close>, with
  \<open>utf8_skip\<close> the length of a character read off its first byte), so a name of more
  than 63 bytes is cut; as a C string the name also ends at its first zero byte.
\<close>

definition utf8_skip :: "char \<Rightarrow> nat" where
  "utf8_skip c =
     (let b = (of_char c :: nat)
      in if b < 192 then 1 else if b < 224 then 2 else if b < 240 then 3
         else if b < 248 then 4 else if b < 252 then 5 else if b < 254 then 6 else 1)"

function strncpy_utf8 :: "nat \<Rightarrow> string \<Rightarrow> string" where
  "strncpy_utf8 maxncpy [] = []"
| "strncpy_utf8 maxncpy (c # cs) =
     (if (of_char c :: nat) \<noteq> 0 \<and> utf8_skip c < maxncpy
      then take (utf8_skip c) (c # cs)
           @ strncpy_utf8 (maxncpy - utf8_skip c) (drop (utf8_skip c) (c # cs))
      else [])"
  by pat_completeness auto
termination
  by (relation "measure (\<lambda>(maxncpy, s). length s)") (auto simp: utf8_skip_def Let_def)

declare strncpy_utf8.simps [simp del]

text \<open>
  The host keeps the names of a collection unique. An empty name becomes \<^verbatim>\<open>Key\<close>. A
  name that another entry carries is split into a stem and a number (the digits after
  the last dot, 0 when there are none), and the number is counted up until the stem
  followed by a dot and the number, in at least three digits, is free; the stem is cut so
  that the whole fits the buffer. The host's loop has no bound of its own; among as
  many candidates as there are other entries plus one, one is free, so the search below
  is over those. The conversion of the digits to a machine integer is not modelled.
\<close>

fun digits10 :: "nat \<Rightarrow> string" where
  "digits10 n =
     (if n < 10 then [''0123456789'' ! n]
      else digits10 (n div 10) @ [''0123456789'' ! (n mod 10)])"

declare digits10.simps [simp del]

definition is_digit :: "char \<Rightarrow> bool" where
  "is_digit c = (c \<in> set ''0123456789'')"

definition atol :: "string \<Rightarrow> nat" where
  "atol ds = foldl (\<lambda>n c. 10 * n + (of_char c - 48)) 0 ds"

definition split_name_number :: "string \<Rightarrow> string \<times> nat" where
  "split_name_number nm =
     (if 1 < length nm \<and> last nm = CHR ''.'' then (nm, 0)
      else
        case dropWhile is_digit (rev nm) of
          [] \<Rightarrow> (nm, 0)
        | c # left_rev \<Rightarrow>
            if c = CHR ''.'' then (rev left_rev, atol (rev (takeWhile is_digit (rev nm))))
            else (nm, 0))"

definition numbered :: "string \<Rightarrow> nat \<Rightarrow> string" where
  "numbered left k =
     (let numstr = ''.'' @ replicate (3 - length (digits10 k)) (CHR ''0'') @ digits10 k
      in if left = [] \<or> 64 \<le> length numstr + 1 then take 63 numstr
         else strncpy_utf8 (64 - length numstr) left @ numstr)"

definition unique_name :: "string list \<Rightarrow> string \<Rightarrow> string" where
  "unique_name taken nm0 =
     (let nm = (if nm0 = [] then ''Key'' else nm0)
      in if nm \<notin> set taken then nm
         else
           case split_name_number nm of
             (left, number) \<Rightarrow>
               (case find (\<lambda>c. c \<notin> set taken)
                       (map (numbered left) [Suc number ..< number + length taken + 2]) of
                  Some c \<Rightarrow> c
                | None \<Rightarrow> nm))"

text \<open>The name the host stores for an entry, given the names of the other entries.\<close>

definition host_name :: "string list \<Rightarrow> string \<Rightarrow> string" where
  "host_name taken nm = unique_name taken (strncpy_utf8 64 nm)"

text \<open>
  \<^verbatim>\<open>bpy.ops.object.shape_key_move(type=...)\<close>. Its poll needs a collection of at least two
  entries. The active entry goes to position \<open>(count + index + step) mod count\<close>, with
  step \<open>-1\<close> for \<^verbatim>\<open>UP\<close> and \<open>+1\<close> for \<^verbatim>\<open>DOWN\<close>; the entries in between shift by one and
  the moved entry stays the active one. Without an active entry the call is cancelled
  and changes nothing.
\<close>

datatype direction = UP | DOWN

definition list_move :: "'a list \<Rightarrow> nat \<Rightarrow> nat \<Rightarrow> 'a list" where
  "list_move xs i j =
     (let r = take i xs @ drop (Suc i) xs in take j r @ xs ! i # drop j r)"

definition shape_key_move :: "direction \<Rightarrow> object \<Rightarrow> error + object" where
  "shape_key_move d obj =
     (case shape_keys obj of
        None \<Rightarrow> Inl RuntimeError
      | Some ks \<Rightarrow>
          if length ks < 2 then Inl RuntimeError
          else if shapenr obj = 0 \<or> length ks < shapenr obj then Inr obj
          else
            let act = shapenr obj - 1;
                new = (case d of UP \<Rightarrow> (length ks + act - 1) mod length ks
                               | DOWN \<Rightarrow> (length ks + act + 1) mod length ks)
            in Inr (obj\<lparr>shape_keys := Some (list_move ks act new), shapenr := Suc new\<rparr>))"

text \<open>
  \<^verbatim>\<open>bpy.ops.object.shape_key_remove()\<close>. Its poll needs an active entry. The active entry
  is removed, the active slot moves up by one unless it is the first, and a collection
  that becomes empty is freed (\<^verbatim>\<open>obj.data.shape_keys\<close> becomes \<^verbatim>\<open>None\<close>).
\<close>

definition shape_key_remove :: "object \<Rightarrow> error + object" where
  "shape_key_remove obj =
     (case shape_keys obj of
        None \<Rightarrow> Inl RuntimeError
      | Some ks \<Rightarrow>
          if shapenr obj = 0 \<or> length ks < shapenr obj then Inl RuntimeError
          else
            let act = shapenr obj - 1;
                ks' = take act ks @ drop (Suc act) ks
            in Inr (obj\<lparr>shape_keys := (if ks' = [] then None else Some ks'),
                        shapenr := (if 1 < shapenr obj then shapenr obj - 1 else shapenr obj)\<rparr>))"

section \<open>utils.py\<close>

subsection \<open>move_old_shapekeys_to_bottom\<close>

text \<open>
  \<^verbatim>\<open>while obj.active_shape_key_index < target_index: bpy.ops.object.shape_key_move(type='DOWN')\<close>.
  The loop has no bound of its own, so \<open>None\<close> is "does not return".
\<close>

partial_function (option) move_down_loop :: "nat \<Rightarrow> object \<Rightarrow> (error + object) option" where
  "move_down_loop target_index obj =
     (if active_shape_key_index obj < target_index
      then (case shape_key_move DOWN obj of
              Inl e \<Rightarrow> Some (Inl e)
            | Inr obj' \<Rightarrow> move_down_loop target_index obj')
      else Some (Inr obj))"

text \<open>
  \<^verbatim>\<open>old_indices = [i for i, kb in enumerate(key_blocks) if kb.name.endswith('.old')]\<close>
\<close>

definition old_indices :: "shapekey list \<Rightarrow> nat list" where
  "old_indices ks = [i \<leftarrow> [0 ..< length ks]. endswith (name (ks ! i)) ''.old'']"

text \<open>
  The body of \<^verbatim>\<open>for idx in reversed(old_indices)\<close>, on the pair of the object and the
  counter \<open>moved\<close>. \<open>key_blocks\<close> is the live collection, so \<^verbatim>\<open>len(key_blocks)\<close> is read
  from the current state.
\<close>

fun move_old_loop :: "nat list \<Rightarrow> object \<times> nat \<Rightarrow> (error + object \<times> nat) option" where
  "move_old_loop [] (obj, moved) = Some (Inr (obj, moved))"
| "move_old_loop (idx # idxs) (obj, moved) =
     (if idx = 0 then move_old_loop idxs (obj, moved)
      else
        case shape_keys obj of
          None \<Rightarrow> Some (Inl ReferenceError)
        | Some key_blocks \<Rightarrow>
            (case move_down_loop (length key_blocks - 1) (set_active_shape_key_index idx obj) of
               None \<Rightarrow> None
             | Some (Inl e) \<Rightarrow> Some (Inl e)
             | Some (Inr obj') \<Rightarrow> move_old_loop idxs (obj', Suc moved)))"

text \<open>
  The function itself. The result pairs the object after the call with the returned
  value, \<open>None\<close> being Python's \<^verbatim>\<open>None\<close>.
\<close>

definition move_old_shapekeys_to_bottom ::
  "object option \<Rightarrow> (error + object option \<times> nat option) option" where
  "move_old_shapekeys_to_bottom obj =
     (case obj of
        None \<Rightarrow> Some (Inr (None, None))
      | Some ob \<Rightarrow>
          (case shape_keys ob of
             None \<Rightarrow> Some (Inr (obj, None))
           | Some key_blocks \<Rightarrow>
               (case move_old_loop (rev (old_indices key_blocks)) (ob, 0) of
                  None \<Rightarrow> None
                | Some (Inl e) \<Rightarrow> Some (Inl e)
                | Some (Inr (ob', moved)) \<Rightarrow> Some (Inr (Some ob', Some moved)))))"

subsection \<open>delete_old_shapekeys\<close>

text \<open>
  \<^verbatim>\<open>old_names = [kb.name for kb in key_blocks if kb.name.endswith('.old')]\<close>
\<close>

definition old_names :: "shapekey list \<Rightarrow> string list" where
  "old_names ks = [nm \<leftarrow> names ks. endswith nm ''.old'']"

text \<open>
  The body of \<^verbatim>\<open>for name in reversed(old_names)\<close>, on the pair of the object and the
  counter \<open>deleted\<close>. \<^verbatim>\<open>list(key_blocks).index(key_blocks[name])\<close> is the position of the
  first entry that carries the name.
\<close>

fun delete_old_loop :: "string list \<Rightarrow> object \<times> nat \<Rightarrow> error + object \<times> nat" where
  "delete_old_loop [] (obj, deleted) = Inr (obj, deleted)"
| "delete_old_loop (nm # nms) (obj, deleted) =
     (case shape_keys obj of
        None \<Rightarrow> Inl ReferenceError
      | Some key_blocks \<Rightarrow>
          if nm \<in> set (names key_blocks) then
            (case index_of (names key_blocks) nm of
               None \<Rightarrow> Inl ValueError
             | Some i \<Rightarrow>
                 rbind (shape_key_remove (set_active_shape_key_index i obj))
                   (\<lambda>obj'. delete_old_loop nms (obj', Suc deleted)))
          else delete_old_loop nms (obj, deleted))"

definition delete_old_shapekeys :: "object option \<Rightarrow> error + object option \<times> nat option" where
  "delete_old_shapekeys obj =
     (case obj of
        None \<Rightarrow> Inr (None, None)
      | Some ob \<Rightarrow>
          (case shape_keys ob of
             None \<Rightarrow> Inr (obj, None)
           | Some key_blocks \<Rightarrow>
               rbind (delete_old_loop (rev (old_names key_blocks)) (ob, 0))
                 (\<lambda>(ob', deleted). Inr (Some ob', Some deleted))))"

subsection \<open>get_missing_shapekeys\<close>


subsection \<open>split_shapekey_by_groups\<close>

text \<open>
  \<^verbatim>\<open>bpy.ops.object.shape_key_clear()\<close> sets the blend weight of every entry to zero.
\<close>

definition shape_key_clear :: "object \<Rightarrow> object" where
  "shape_key_clear obj =
     obj\<lparr>shape_keys := map_option (map (\<lambda>kb. kb\<lparr>kb_value := 0\<rparr>)) (shape_keys obj)\<rparr>"

text \<open>
  \<^verbatim>\<open>bpy.ops.object.shape_key_add(from_mix=True)\<close> appends an entry under the host's
  default name (\<^verbatim>\<open>Basis\<close> for the first entry, \<^verbatim>\<open>Key n\<close> after \<open>n\<close> entries), with
  the weight 1 the host gives a new entry and no mask, and makes it the active one.
\<close>

definition shape_key_add_op :: "object \<Rightarrow> object" where
  "shape_key_add_op obj =
     (let ks = (case shape_keys obj of None \<Rightarrow> [] | Some ks \<Rightarrow> ks);
          nm = host_name (names ks)
                 (if ks = [] then ''Basis'' else ''Key '' @ digits10 (length ks))
      in obj\<lparr>shape_keys := Some (ks @ [\<lparr>name = nm, kb_value = 1, vertex_group = []\<rparr>]),
             shapenr := Suc (length ks)\<rparr>)"

text \<open>
  \<^verbatim>\<open>obj.active_shape_key.name = new_name\<close>: the host stores the name cut to its buffer
  and made unique among the other entries.
\<close>

definition set_active_name :: "string \<Rightarrow> object \<Rightarrow> error + object" where
  "set_active_name new_name obj =
     (case shape_keys obj of
        None \<Rightarrow> Inl AttributeError
      | Some ks \<Rightarrow>
          if shapenr obj = 0 \<or> length ks < shapenr obj then Inl AttributeError
          else
            let i = shapenr obj - 1;
                others = names (take i ks @ drop (Suc i) ks)
            in Inr (obj\<lparr>shape_keys :=
                          Some (ks[i := (ks ! i)\<lparr>name := host_name others new_name\<rparr>])\<rparr>))"

text \<open>
  One round of \<^verbatim>\<open>for group_name, suffix in [...]\<close>; \<open>suffix\<close> is the group's name in both
  rounds. \<^verbatim>\<open>shape_key\<close> is the entry fetched before the loop; names are unique in the
  host, so it is the entry that \<^verbatim>\<open>index(original_name)\<close> has just located, and the two
  assignments to it are made at that position.
\<close>

definition split_round :: "string \<Rightarrow> nat \<Rightarrow> string \<Rightarrow> object \<Rightarrow> error + object \<times> string" where
  "split_round original_name move_steps group_name obj =
     (let obj1 = shape_key_clear obj
      in case shape_keys obj1 of
           None \<Rightarrow> Inl AttributeError
         | Some ks \<Rightarrow>
             (case index_of (names ks) original_name of
                None \<Rightarrow> Inl ValueError
              | Some p \<Rightarrow>
                  let obj2 = set_active_shape_key_index p obj1;
                      obj3 = obj2\<lparr>shape_keys :=
                               Some (ks[p := (ks ! p)\<lparr>kb_value := 1, vertex_group := group_name\<rparr>])\<rparr>;
                      obj4 = shape_key_add_op obj3;
                      new_name = original_name @ group_name
                  in rbind (set_active_name new_name obj4) (\<lambda>obj5.
                     rbind (repeat move_steps (shape_key_move UP) obj5) (\<lambda>obj6.
                     Inr (obj6, new_name)))))"

text \<open>The statements after the loop.\<close>

definition split_restore :: "string \<Rightarrow> nat \<Rightarrow> object \<Rightarrow> error + object" where
  "split_restore original_name original_index obj =
     (let obj1 = shape_key_clear obj
      in case shape_keys obj1 of
           None \<Rightarrow> Inl AttributeError
         | Some ks \<Rightarrow>
             (case index_of (names ks) original_name of
                None \<Rightarrow> Inl ValueError
              | Some current_index \<Rightarrow>
                  let obj2 = set_active_shape_key_index current_index obj1;
                      obj3 = obj2\<lparr>shape_keys :=
                               Some (ks[current_index := (ks ! current_index)\<lparr>vertex_group := []\<rparr>])\<rparr>
                  in rbind
                       (if current_index \<noteq> original_index then
                          (if current_index < original_index
                           then repeat (original_index - current_index) (shape_key_move DOWN) obj3
                           else repeat (current_index - original_index) (shape_key_move UP) obj3)
                        else Inr obj3)
                       (\<lambda>obj4. Inr (set_active_shape_key_index original_index obj4))))"

text \<open>
  \<^verbatim>\<open>key_count\<close> is read from \<^verbatim>\<open>bpy.context.object\<close>, which is the object passed in
  (the operator passes the context's active object, and every \<^verbatim>\<open>bpy.ops\<close> call acts on
  it). \<open>move_steps\<close> is a natural number: the active entry's position is below the
  count whenever an active entry exists, and \<^verbatim>\<open>range\<close> of a negative number is empty.
\<close>

definition split_shapekey_by_groups ::
  "object option \<Rightarrow> string \<Rightarrow> string \<Rightarrow> error + object option \<times> (string \<times> string) option" where
  "split_shapekey_by_groups obj group_a_name group_b_name =
     (case obj of
        None \<Rightarrow> Inr (None, None)
      | Some ob \<Rightarrow>
          (case shape_keys ob of
             None \<Rightarrow> Inr (obj, None)
           | Some key_blocks \<Rightarrow>
               (case active_shape_key ob of
                  None \<Rightarrow> Inr (obj, None)
                | Some shape_key \<Rightarrow>
                    if group_a_name \<notin> set (vertex_groups ob) \<or> group_b_name \<notin> set (vertex_groups ob)
                    then Inr (obj, None)
                    else
                      let original_name = name shape_key;
                          original_index = active_shape_key_index ob;
                          key_count = length key_blocks;
                          move_steps = key_count - original_index - 1
                      in rbind (split_round original_name move_steps group_a_name ob) (\<lambda>(ob1, name_a).
                         rbind (split_round original_name move_steps group_b_name ob1) (\<lambda>(ob2, name_b).
                         rbind (split_restore original_name original_index ob2) (\<lambda>ob3.
                         Inr (Some ob3, Some (name_a, name_b))))))))"

section \<open>operators.py\<close>

text \<open>
  The part of \<^verbatim>\<open>context\<close> the operators read: the active object and the scene
  properties registered in \<^verbatim>\<open>properties.py\<close>. An operator's result is the context after
  the call, the message it reports and its status.
\<close>

record bpy_context =
  active_object :: "object option"
  pawlygon_target_object :: "object option"
  pawlygon_missing_count :: int
  pawlygon_missing_list :: "string list"

datatype message =
    Moved_to_bottom nat
  | Deleted_shapekeys nat
  | No_old_shapekeys_found
  | Created_shapekeys nat

datatype status = FINISHED | CANCELLED

definition PU_OT_move_old_shapekeys_poll :: "bpy_context \<Rightarrow> bool" where
  "PU_OT_move_old_shapekeys_poll ctx =
     (case active_object ctx of
        None \<Rightarrow> False
      | Some obj \<Rightarrow>
          obj_type obj = ''MESH'' \<and> shape_keys obj \<noteq> None \<and> mode obj \<in> {''OBJECT'', ''SCULPT''})"

definition PU_OT_move_old_shapekeys_execute ::
  "bpy_context \<Rightarrow> (error + bpy_context \<times> message \<times> status) option" where
  "PU_OT_move_old_shapekeys_execute ctx =
     (case move_old_shapekeys_to_bottom (active_object ctx) of
        None \<Rightarrow> None
      | Some (Inl e) \<Rightarrow> Some (Inl e)
      | Some (Inr (obj', moved)) \<Rightarrow>
          (case moved of
             None \<Rightarrow> Some (Inl TypeError)
           | Some m \<Rightarrow>
               Some (Inr (ctx\<lparr>active_object := obj'\<rparr>,
                          (if m > 0 then Moved_to_bottom m else No_old_shapekeys_found),
                          FINISHED))))"

definition PU_OT_delete_old_shapekeys_poll :: "bpy_context \<Rightarrow> bool" where
  "PU_OT_delete_old_shapekeys_poll ctx =
     (case active_object ctx of
        None \<Rightarrow> False
      | Some obj \<Rightarrow>
          obj_type obj = ''MESH'' \<and> shape_keys obj \<noteq> None \<and> mode obj \<in> {''OBJECT'', ''SCULPT''})"

definition PU_OT_delete_old_shapekeys_execute ::
  "bpy_context \<Rightarrow> error + bpy_context \<times> message \<times> status" where
  "PU_OT_delete_old_shapekeys_execute ctx =
     (case delete_old_shapekeys (active_object ctx) of
        Inl e \<Rightarrow> Inl e
      | Inr (obj', deleted) \<Rightarrow>
          (case deleted of
             None \<Rightarrow> Inl TypeError
           | Some d \<Rightarrow>
               Inr (ctx\<lparr>active_object := obj'\<rparr>,
                    (if d > 0 then Deleted_shapekeys d else No_old_shapekeys_found),
                    FINISHED)))"





section \<open>Auxiliary definitions\<close>

text \<open>
  Notions used to state and prove the properties below; none of them is part of the
  add-on. \<open>is_old\<close> is the test both sweeps apply to an entry; \<open>to_last\<close> is the effect
  of the inner loop of \<^verbatim>\<open>move_old_shapekeys_to_bottom\<close> on the collection and \<open>sweep\<close>
  the effect of its outer loop.
\<close>

definition is_old :: "shapekey \<Rightarrow> bool" where
  "is_old kb = endswith (name kb) ''.old''"

definition to_last :: "'a list \<Rightarrow> nat \<Rightarrow> 'a list" where
  "to_last xs i = take i xs @ drop (Suc i) xs @ [xs ! i]"

fun sweep :: "nat list \<Rightarrow> 'a list \<Rightarrow> 'a list" where
  "sweep [] ks = ks"
| "sweep (i # idxs) ks = (if i = 0 then sweep idxs ks else sweep idxs (to_last ks i))"

text \<open>
  What a call left behind: the names of the collection after a call that returned, and
  the value it returned.
\<close>

definition names_after :: "(error + object option \<times> 'r) option \<Rightarrow> string list option" where
  "names_after r =
     (case r of
        Some (Inr (Some ob, v)) \<Rightarrow> map_option names (shape_keys ob)
      | _ \<Rightarrow> None)"

definition returned :: "(error + 's \<times> 'r) option \<Rightarrow> 'r option" where
  "returned r = (case r of Some (Inr (s, v)) \<Rightarrow> Some v | _ \<Rightarrow> None)"

text \<open>Two calls of \<^verbatim>\<open>move_old_shapekeys_to_bottom\<close> in succession; the result is the second's.\<close>

definition move_old_twice_run :: "object option \<Rightarrow> (error + object option \<times> nat option) option" where
  "move_old_twice_run obj =
     (case move_old_shapekeys_to_bottom obj of
        Some (Inr (obj1, moved)) \<Rightarrow> move_old_shapekeys_to_bottom obj1
      | r \<Rightarrow> r)"

text \<open>Concrete objects: entries with weight zero and no mask under the given names.\<close>

definition plain_key :: "string \<Rightarrow> shapekey" where
  "plain_key nm = \<lparr>name = nm, kb_value = 0, vertex_group = []\<rparr>"

definition example_object :: "string list \<Rightarrow> nat \<Rightarrow> string list \<Rightarrow> object" where
  "example_object nms act groups =
     \<lparr>obj_type = ''MESH'', mode = ''OBJECT'', shape_keys = Some (map plain_key nms),
      shapenr = act, vertex_groups = groups\<rparr>"

text \<open>The entries of an object's collection, none when it has no collection.\<close>

definition entries :: "object \<Rightarrow> shapekey list" where
  "entries ob = (case shape_keys ob of None \<Rightarrow> [] | Some ks \<Rightarrow> ks)"


definition example_context :: "object option \<Rightarrow> object option \<Rightarrow> string list \<Rightarrow> bpy_context" where
  "example_context act target missing =
     \<lparr>active_object = act, pawlygon_target_object = target,
      pawlygon_missing_count = int (length missing), pawlygon_missing_list = missing\<rparr>"

text \<open>
  A name the host stores as it is given: not empty and not cut by the 64-byte buffer
  (nor at a zero byte).
\<close>

definition storable :: "string \<Rightarrow> bool" where
  "storable nm = (nm \<noteq> [] \<and> strncpy_utf8 64 nm = nm)"




text \<open>An entry after \<^verbatim>\<open>shape_key_clear\<close>: its weight is zero.\<close>

definition cleared :: "shapekey \<Rightarrow> shapekey" where
  "cleared kb = kb\<lparr>kb_value := 0\<rparr>"



text \<open>An entry as the host creates it: weight 1 and no mask.\<close>

definition new_key :: "string \<Rightarrow> shapekey" where
  "new_key nm = \<lparr>name = nm, kb_value = 1, vertex_group = []\<rparr>"

section \<open>The inner and outer loop of move_old_shapekeys_to_bottom\<close>

lemma list_move_Suc:
  assumes "Suc i < length xs"
  shows "list_move xs i (Suc i) = take i xs @ xs ! Suc i # xs ! i # drop (Suc (Suc i)) xs"
proof -
  have d: "drop (Suc i) xs = xs ! Suc i # drop (Suc (Suc i)) xs"
    using assms by (simp add: Cons_nth_drop_Suc)
  show ?thesis
    using assms by (simp add: list_move_def Let_def d)
qed

lemma to_last_step:
  assumes "Suc i < length xs"
  shows "to_last (list_move xs i (Suc i)) (Suc i) = to_last xs i"
proof -
  have d: "drop (Suc i) xs = xs ! Suc i # drop (Suc (Suc i)) xs"
    using assms by (simp add: Cons_nth_drop_Suc)
  have l: "length (take i xs) = i" using assms by simp
  show ?thesis
    unfolding list_move_Suc[OF assms] to_last_def
    using assms l by (simp add: d nth_append)
qed

lemma length_list_move: "i < length xs \<Longrightarrow> j < length xs \<Longrightarrow> length (list_move xs i j) = length xs"
  by (auto simp: list_move_def Let_def)

lemma to_last_last: "xs \<noteq> [] \<Longrightarrow> to_last xs (length xs - 1) = xs"
  by (cases xs rule: rev_cases) (simp_all add: to_last_def)

lemma move_down_loop_last:
  assumes "shape_keys obj = Some ks" "1 \<le> shapenr obj" "shapenr obj \<le> length ks"
  shows "move_down_loop (length ks - 1) obj =
           Some (Inr (obj\<lparr>shape_keys := Some (to_last ks (shapenr obj - 1)), shapenr := length ks\<rparr>))"
  using assms
proof (induction "length ks - shapenr obj" arbitrary: obj ks)
  case 0
  then have s: "shapenr obj = length ks" by simp
  with 0 have ne: "ks \<noteq> []" by auto
  have "obj\<lparr>shape_keys := Some (to_last ks (shapenr obj - 1)), shapenr := length ks\<rparr> = obj"
    using 0 s ne to_last_last[of ks] by simp
  then show ?case
    using s
    by (subst move_down_loop.simps) (simp add: active_shape_key_index_def)
next
  case (Suc n)
  from Suc.prems obtain i where si: "shapenr obj = Suc i"
    by (cases "shapenr obj") auto
  have i: "Suc i < length ks" using Suc si by auto
  have len2: "\<not> length ks < 2" using i by auto
  define ks1 where "ks1 = list_move ks i (Suc i)"
  define obj1 where "obj1 = obj\<lparr>shape_keys := Some ks1, shapenr := Suc (Suc i)\<rparr>"
  have m: "Suc (length ks + i) mod length ks = Suc i"
    using i by (metis add_Suc_right mod_add_self1 mod_less)
  have mv: "shape_key_move DOWN obj = Inr obj1"
    using Suc.prems si i len2 by (simp add: shape_key_move_def Let_def obj1_def ks1_def m)
  have lk: "length ks1 = length ks" using i by (simp add: length_list_move ks1_def)
  have tl: "to_last ks1 (Suc i) = to_last ks i"
    unfolding ks1_def by (rule to_last_step[OF i])
  have "move_down_loop (length ks1 - 1) obj1 =
          Some (Inr (obj1\<lparr>shape_keys := Some (to_last ks1 (shapenr obj1 - 1)), shapenr := length ks1\<rparr>))"
  proof (rule Suc.hyps(1))
    show "n = length ks1 - shapenr obj1" using Suc.hyps(2) si lk by (simp add: obj1_def)
    show "shape_keys obj1 = Some ks1" by (simp add: obj1_def)
    show "1 \<le> shapenr obj1" by (simp add: obj1_def)
    show "shapenr obj1 \<le> length ks1" using i lk by (simp add: obj1_def)
  qed
  moreover have "shapenr obj1 - 1 = Suc i" by (simp add: obj1_def)
  moreover have "obj1\<lparr>shape_keys := Some (to_last ks i), shapenr := length ks\<rparr>
                  = obj\<lparr>shape_keys := Some (to_last ks i), shapenr := length ks\<rparr>"
    by (simp add: obj1_def)
  ultimately have "move_down_loop (length ks - 1) obj1 =
          Some (Inr (obj\<lparr>shape_keys := Some (to_last ks i), shapenr := length ks\<rparr>))"
    by (simp only: lk tl)
  moreover have "active_shape_key_index obj < length ks - 1"
    using i si by (simp add: active_shape_key_index_def)
  ultimately show ?case
    using si by (subst move_down_loop.simps) (simp add: mv)
qed


lemma length_to_last: "i < length xs \<Longrightarrow> length (to_last xs i) = length xs"
  by (simp add: to_last_def)

lemma mset_to_last:
  assumes "i < length xs"
  shows "mset (to_last xs i) = mset xs"
proof -
  have "take i xs @ xs ! i # drop (Suc i) xs = xs"
    by (rule id_take_nth_drop[symmetric, OF assms])
  then have "mset xs = mset (take i xs @ xs ! i # drop (Suc i) xs)"
    by (rule arg_cong[where f = mset, symmetric])
  also have "\<dots> = mset (to_last xs i)"
    by (simp add: to_last_def)
  finally show ?thesis by (rule sym)
qed

lemma to_last_nth0: "0 < i \<Longrightarrow> i < length xs \<Longrightarrow> to_last xs i ! 0 = xs ! 0"
  by (simp add: to_last_def nth_append)

lemma sweep_props:
  "\<forall>i\<in>set idxs. i < length ks \<Longrightarrow>
     length (sweep idxs ks) = length ks \<and> mset (sweep idxs ks) = mset ks \<and> sweep idxs ks ! 0 = ks ! 0"
proof (induction idxs arbitrary: ks)
  case Nil
  then show ?case by simp
next
  case (Cons i idxs)
  show ?case
  proof (cases "i = 0")
    case True
    then show ?thesis using Cons by simp
  next
    case False
    have i: "i < length ks" "0 < i" using Cons.prems False by auto
    have "\<forall>j\<in>set idxs. j < length (to_last ks i)"
      using Cons.prems i by (simp add: length_to_last)
    from Cons.IH[OF this] show ?thesis
      using False i by (simp add: length_to_last mset_to_last to_last_nth0)
  qed
qed

lemma move_old_loop_sweep:
  assumes "shape_keys obj = Some ks" "\<forall>i\<in>set idxs. i < length ks"
  shows "move_old_loop idxs (obj, m) =
           Some (Inr (obj\<lparr>shape_keys := Some (sweep idxs ks),
                           shapenr := (if \<exists>i\<in>set idxs. i \<noteq> 0 then length ks else shapenr obj)\<rparr>,
                      m + length (filter (\<lambda>i. i \<noteq> 0) idxs)))"
  using assms
proof (induction idxs arbitrary: obj ks m)
  case Nil
  then have "obj\<lparr>shape_keys := Some ks, shapenr := shapenr obj\<rparr> = obj" by simp
  then show ?case by simp
next
  case (Cons idx idxs)
  show ?case
  proof (cases "idx = 0")
    case True
    then show ?thesis using Cons.IH[of obj ks m] Cons.prems by simp
  next
    case False
    have i: "idx < length ks" using Cons.prems by simp
    define obj0 where "obj0 = set_active_shape_key_index idx obj"
    define obj1 where "obj1 = obj0\<lparr>shape_keys := Some (to_last ks idx), shapenr := length ks\<rparr>"
    have "move_down_loop (length ks - 1) obj0 =
            Some (Inr (obj0\<lparr>shape_keys := Some (to_last ks (shapenr obj0 - 1)), shapenr := length ks\<rparr>))"
      by (rule move_down_loop_last)
         (use Cons.prems i in \<open>simp_all add: obj0_def set_active_shape_key_index_def\<close>)
    then have md: "move_down_loop (length ks - 1) obj0 = Some (Inr obj1)"
      by (simp add: obj1_def obj0_def set_active_shape_key_index_def)
    have sk1: "shape_keys obj1 = Some (to_last ks idx)" by (simp add: obj1_def)
    have b1: "\<forall>j\<in>set idxs. j < length (to_last ks idx)"
      using Cons.prems i by (simp add: length_to_last)
    have rec: "move_old_loop idxs (obj1, Suc m) =
           Some (Inr (obj1\<lparr>shape_keys := Some (sweep idxs (to_last ks idx)),
                           shapenr := (if \<exists>i\<in>set idxs. i \<noteq> 0 then length (to_last ks idx) else shapenr obj1)\<rparr>,
                      Suc m + length (filter (\<lambda>i. i \<noteq> 0) idxs)))"
      by (rule Cons.IH[OF sk1 b1])
    have fin: "obj1\<lparr>shape_keys := Some (sweep idxs (to_last ks idx)),
                    shapenr := (if \<exists>i\<in>set idxs. i \<noteq> 0 then length (to_last ks idx) else shapenr obj1)\<rparr>
             = obj\<lparr>shape_keys := Some (sweep (idx # idxs) ks), shapenr := length ks\<rparr>"
      using False i by (simp add: obj1_def obj0_def set_active_shape_key_index_def length_to_last)
    have "move_old_loop (idx # idxs) (obj, m) = move_old_loop idxs (obj1, Suc m)"
      using False Cons.prems(1) md[unfolded obj0_def] by simp
    also have "\<dots> = Some (Inr (obj\<lparr>shape_keys := Some (sweep (idx # idxs) ks), shapenr := length ks\<rparr>,
                      Suc m + length (filter (\<lambda>i. i \<noteq> 0) idxs)))"
      by (simp only: rec fin)
    finally show ?thesis
      using False by simp
  qed
qed

lemma old_indices_bound: "\<forall>i\<in>set (rev (old_indices ks)). i < length ks"
  by (simp add: old_indices_def)

lemma length_filter_nth:
  "length (filter (\<lambda>i. P (xs ! i)) [0 ..< length xs]) = length (filter P xs)"
proof -
  have "filter P (map (\<lambda>i. xs ! i) [0 ..< length xs]) = map (\<lambda>i. xs ! i) (filter (\<lambda>i. P (xs ! i)) [0 ..< length xs])"
    by (simp add: filter_map comp_def)
  then have "length (filter P (map (\<lambda>i. xs ! i) [0 ..< length xs])) = length (filter (\<lambda>i. P (xs ! i)) [0 ..< length xs])"
    by simp
  then show ?thesis by (simp add: map_nth)
qed

lemma count_nonzero_old:
  "length (filter (\<lambda>i. 0 < i) (rev (old_indices ks))) = length (filter is_old (tl ks))"
proof (cases ks)
  case Nil
  then show ?thesis by (simp add: old_indices_def)
next
  case (Cons k r)
  have "[0 ..< Suc (length r)] = 0 # [Suc 0 ..< Suc (length r)]"
    by (rule upt_conv_Cons) simp
  then have u: "[0 ..< length ks] = 0 # map Suc [0 ..< length r]"
    using Cons by (simp only: map_Suc_upt list.size(4) One_nat_def add_Suc_right add_0_right)
  have "filter (\<lambda>i. 0 < i) (old_indices ks) = map Suc (filter (\<lambda>i. is_old (r ! i)) [0 ..< length r])"
    unfolding old_indices_def u using Cons
    by (simp add: filter_map comp_def is_old_def)
  then have "length (filter (\<lambda>i. 0 < i) (old_indices ks)) = length (filter is_old r)"
    by (simp add: length_filter_nth)
  moreover have "length (filter (\<lambda>i. 0 < i) (rev (old_indices ks))) = length (filter (\<lambda>i. 0 < i) (old_indices ks))"
    by (simp flip: rev_filter)
  ultimately show ?thesis using Cons by simp
qed

lemma move_old_result:
  assumes "shape_keys ob = Some ks"
  shows "move_old_shapekeys_to_bottom (Some ob) =
           Some (Inr (Some (ob\<lparr>shape_keys := Some (sweep (rev (old_indices ks)) ks),
                                 shapenr := (if \<exists>i\<in>set (rev (old_indices ks)). i \<noteq> 0
                                             then length ks else shapenr ob)\<rparr>),
                      Some (length (filter is_old (tl ks)))))"
  using move_old_loop_sweep[OF assms old_indices_bound, of 0] assms
  by (simp add: move_old_shapekeys_to_bottom_def count_nonzero_old)

lemma filter_tl_mset:
  assumes "length ks' = length ks" "mset ks' = mset ks" "ks' ! 0 = ks ! 0"
  shows "length (filter P (tl ks')) = length (filter P (tl ks))"
proof (cases ks)
  case Nil
  then show ?thesis using assms by simp
next
  case (Cons k r)
  then obtain k' r' where c': "ks' = k' # r'" using assms(1) by (cases ks') auto
  have "k' = k" using assms(3) Cons c' by simp
  then have "mset r' = mset r" using assms(2) Cons c' by simp
  then have "mset (filter P r') = mset (filter P r)" by (simp add: mset_filter)
  then have "size (mset (filter P r')) = size (mset (filter P r))" by (rule arg_cong)
  then have "length (filter P r') = length (filter P r)" by (simp only: size_mset)
  then show ?thesis using Cons c' by simp
qed

section \<open>Properties of move_old_shapekeys_to_bottom\<close>

lemma old_indices_example:
  assumes "names ks = [''Basis'', ''A.old'', ''B'', ''C.old'']"
  shows "old_indices ks = [1, 3]"
proof -
  from assms obtain k0 k1 k2 k3 where ks: "ks = [k0, k1, k2, k3]"
    by (auto simp: names_def)
  with assms have n: "name k0 = ''Basis''" "name k1 = ''A.old''" "name k2 = ''B''" "name k3 = ''C.old''"
    by (simp_all add: names_def)
  have u: "[0 ..< length ks] = [0, 1, 2, 3]" unfolding ks by (simp add: upt_rec)
  show ?thesis
    unfolding old_indices_def u by (simp add: ks n endswith_def)
qed

lemma eval_move_example:
  "move_old_shapekeys_to_bottom (Some (example_object [''Basis'', ''A.old'', ''B'', ''C.old''] 1 [])) =
     Some (Inr (Some (example_object [''Basis'', ''B'', ''C.old'', ''A.old''] 4 []), Some 2))"
  by (simp add: move_old_shapekeys_to_bottom_def example_object_def old_indices_def upt_rec
       plain_key_def endswith_def set_active_shape_key_index_def move_down_loop.simps
       active_shape_key_index_def shape_key_move_def list_move_def Let_def)

text \<open>
  C1 (as amended). For an object whose collection is, in order, Basis, A.old, B, C.old,
  one call of \<^verbatim>\<open>move_old_shapekeys_to_bottom\<close> leaves the collection in the order
  Basis, B, C.old, A.old: each entry with the suffix is taken to the last position, from
  the highest position downwards, so the moved entries end up in reverse order.
\<close>

theorem move_old_example_order:
  assumes "shape_keys ob = Some ks" "names ks = [''Basis'', ''A.old'', ''B'', ''C.old'']"
  shows "names_after (move_old_shapekeys_to_bottom (Some ob)) = Some [''Basis'', ''B'', ''C.old'', ''A.old'']"
proof -
  from assms(2) obtain k0 k1 k2 k3 where ks: "ks = [k0, k1, k2, k3]"
    by (auto simp: names_def)
  have s: "sweep (rev (old_indices ks)) ks = [k0, k2, k3, k1]"
    unfolding old_indices_example[OF assms(2)] by (simp add: ks to_last_def)
  show ?thesis
    unfolding move_old_result[OF assms(1)] s
    using assms(2) by (simp add: names_after_def names_def ks)
qed

theorem move_old_example_order_witness:
  "shape_keys (example_object [''Basis'', ''A.old'', ''B'', ''C.old''] 1 []) =
      Some (map plain_key [''Basis'', ''A.old'', ''B'', ''C.old''])
   \<and> names (map plain_key [''Basis'', ''A.old'', ''B'', ''C.old'']) = [''Basis'', ''A.old'', ''B'', ''C.old'']
   \<and> names_after (move_old_shapekeys_to_bottom (Some (example_object [''Basis'', ''A.old'', ''B'', ''C.old''] 1 [])))
        = Some [''Basis'', ''B'', ''C.old'', ''A.old'']"
  using move_old_example_order[of "example_object [''Basis'', ''A.old'', ''B'', ''C.old''] 1 []"
                                  "map plain_key [''Basis'', ''A.old'', ''B'', ''C.old'']"]
  by (simp add: example_object_def names_def plain_key_def)

text \<open>
  The order Basis, B, A.old, C.old, which keeps the moved entries in their original
  order, is not what the call leaves.
\<close>

theorem move_old_example_counterexample:
  "names_after (move_old_shapekeys_to_bottom (Some (example_object [''Basis'', ''A.old'', ''B'', ''C.old''] 1 [])))
     \<noteq> Some [''Basis'', ''B'', ''A.old'', ''C.old'']"
  unfolding eval_move_example by (simp add: names_after_def example_object_def names_def plain_key_def)

text \<open>
  What the function returns, for every object with a collection: two calls in succession
  both return, and both return the number of entries other than the first whose name
  ends with \<^verbatim>\<open>.old\<close>. The counter is incremented for every such entry, whether or
  not the inner loop moved it.
\<close>

lemma move_old_count_twice:
  assumes "shape_keys ob = Some ks"
  shows "returned (move_old_shapekeys_to_bottom (Some ob)) = Some (Some (length (filter is_old (tl ks))))
       \<and> returned (move_old_twice_run (Some ob)) = Some (Some (length (filter is_old (tl ks))))"
proof -
  define ks1 where "ks1 = sweep (rev (old_indices ks)) ks"
  define ob1 where "ob1 = ob\<lparr>shape_keys := Some ks1,
                                 shapenr := (if \<exists>i\<in>set (rev (old_indices ks)). i \<noteq> 0
                                             then length ks else shapenr ob)\<rparr>"
  have r1: "move_old_shapekeys_to_bottom (Some ob) =
              Some (Inr (Some ob1, Some (length (filter is_old (tl ks)))))"
    unfolding ob1_def ks1_def by (rule move_old_result[OF assms])
  have sk1: "shape_keys ob1 = Some ks1" by (simp add: ob1_def)
  have p: "length ks1 = length ks \<and> mset ks1 = mset ks \<and> ks1 ! 0 = ks ! 0"
    unfolding ks1_def by (rule sweep_props[OF old_indices_bound])
  then have c: "length (filter is_old (tl ks1)) = length (filter is_old (tl ks))"
    by (intro filter_tl_mset) simp_all
  have r2: "move_old_twice_run (Some ob) = move_old_shapekeys_to_bottom (Some ob1)"
    by (simp add: move_old_twice_run_def r1)
  show ?thesis
    unfolding r2 unfolding r1 move_old_result[OF sk1] c by (simp add: returned_def)
qed

text \<open>
  With two entries to move the second call also reorders them: on the collection
  Basis, A.old, B, C.old it returns 2 and turns the order Basis, B, C.old, A.old, left by
  the first call, into Basis, B, A.old, C.old.
\<close>

lemma eval_move_twice_reorders:
  "move_old_twice_run (Some (example_object [''Basis'', ''A.old'', ''B'', ''C.old''] 1 [])) =
     Some (Inr (Some (example_object [''Basis'', ''B'', ''A.old'', ''C.old''] 4 []), Some 2))"
  by (simp add: move_old_twice_run_def move_old_shapekeys_to_bottom_def example_object_def
       old_indices_def upt_rec plain_key_def endswith_def set_active_shape_key_index_def
       move_down_loop.simps active_shape_key_index_def shape_key_move_def list_move_def Let_def)

text \<open>
  C2. A call of \<^verbatim>\<open>move_old_shapekeys_to_bottom\<close> that follows another at once is to move
  no entry and so to return 0, the function returning, in its docstring's words, the
  number of shapekeys moved. On the collection Basis, A.old the first call leaves the
  collection as it is, A.old being last already, and returns 1; the second call, on the
  object the first one left, changes nothing at all and returns 1 again.
\<close>

theorem move_old_second_call_returns_one:
  "move_old_shapekeys_to_bottom (Some (example_object [''Basis'', ''A.old''] 1 [])) =
     Some (Inr (Some (example_object [''Basis'', ''A.old''] 2 []), Some 1))
   \<and> move_old_shapekeys_to_bottom (Some (example_object [''Basis'', ''A.old''] 2 [])) =
     Some (Inr (Some (example_object [''Basis'', ''A.old''] 2 []), Some 1))"
  by (simp add: move_old_shapekeys_to_bottom_def example_object_def
       old_indices_def upt_rec plain_key_def endswith_def set_active_shape_key_index_def
       move_down_loop.simps active_shape_key_index_def)

section \<open>The loop of delete_old_shapekeys\<close>

lemma index_of_Some:
  "index_of xs x = Some i \<Longrightarrow> i < length xs \<and> xs ! i = x"
proof (induction xs arbitrary: i)
  case Nil
  then show ?case by simp
next
  case (Cons y ys)
  then show ?case by (cases "y = x") auto
qed

lemma index_of_mem: "x \<in> set xs \<Longrightarrow> \<exists>i. index_of xs x = Some i"
  by (induction xs) auto

lemma old_names_filter: "old_names ks = map name (filter is_old ks)"
proof -
  have "is_old = (\<lambda>kb. endswith (name kb) ''.old'')" by (rule ext) (simp add: is_old_def)
  then show ?thesis by (simp add: old_names_def names_def filter_map comp_def)
qed

lemma filter_not_old_id:
  assumes "old_names ks = []"
  shows "filter (\<lambda>kb. \<not> is_old kb) ks = ks"
proof -
  from assms have "filter is_old ks = []" by (simp add: old_names_filter)
  then have "\<forall>kb\<in>set ks. \<not> is_old kb" by (simp add: filter_empty_conv)
  then show ?thesis by simp
qed

lemma remove_old_entry:
  assumes "i < length ks" "is_old (ks ! i)"
  shows "filter (\<lambda>kb. \<not> is_old kb) (take i ks @ drop (Suc i) ks) = filter (\<lambda>kb. \<not> is_old kb) ks"
    and "mset (old_names ks) = add_mset (name (ks ! i)) (mset (old_names (take i ks @ drop (Suc i) ks)))"
proof -
  have ks: "ks = take i ks @ ks ! i # drop (Suc i) ks"
    by (rule id_take_nth_drop[OF assms(1)])
  have "filter (\<lambda>kb. \<not> is_old kb) (take i ks @ ks ! i # drop (Suc i) ks)
          = filter (\<lambda>kb. \<not> is_old kb) (take i ks @ drop (Suc i) ks)"
    using assms(2) by simp
  then show "filter (\<lambda>kb. \<not> is_old kb) (take i ks @ drop (Suc i) ks) = filter (\<lambda>kb. \<not> is_old kb) ks"
    using ks by simp
  have "mset (old_names (take i ks @ ks ! i # drop (Suc i) ks))
          = add_mset (name (ks ! i)) (mset (old_names (take i ks @ drop (Suc i) ks)))"
    using assms(2) by (simp add: old_names_filter)
  then show "mset (old_names ks) = add_mset (name (ks ! i)) (mset (old_names (take i ks @ drop (Suc i) ks)))"
    using ks by simp
qed

lemma shape_key_remove_at:
  assumes "shape_keys obj = Some ks" "i < length ks"
  shows "shape_key_remove (set_active_shape_key_index i obj) =
           Inr (obj\<lparr>shape_keys := (if take i ks @ drop (Suc i) ks = [] then None
                                     else Some (take i ks @ drop (Suc i) ks)),
                     shapenr := (if 0 < i then i else 1)\<rparr>)"
  using assms by (simp add: shape_key_remove_def set_active_shape_key_index_def Let_def)

lemma delete_old_loop_ok:
  assumes "shape_keys obj = Some ks" "mset nms = mset (old_names ks)"
  shows "\<exists>obj'. delete_old_loop nms (obj, d) = Inr (obj', d + length nms)
           \<and> shape_keys obj' = (if nms \<noteq> [] \<and> filter (\<lambda>kb. \<not> is_old kb) ks = [] then None
                                else Some (filter (\<lambda>kb. \<not> is_old kb) ks))
           \<and> obj_type obj' = obj_type obj \<and> mode obj' = mode obj
           \<and> vertex_groups obj' = vertex_groups obj"
  using assms
proof (induction nms arbitrary: obj ks d)
  case Nil
  then have "old_names ks = []" by simp
  then show ?case using Nil by (simp add: filter_not_old_id)
next
  case (Cons nm rest)
  have "nm \<in># mset (old_names ks)" using Cons.prems(2) by (metis list.set_intros(1) set_mset_mset)
  then have nm_old: "nm \<in> set (old_names ks)" by simp
  then have nm_in: "nm \<in> set (names ks)" and nm_suf: "endswith nm ''.old''"
    by (simp_all add: old_names_def)
  from index_of_mem[OF nm_in] obtain i where idx: "index_of (names ks) nm = Some i" by blast
  from index_of_Some[OF idx] have i: "i < length ks" and nmi0: "names ks ! i = nm"
    by (simp_all add: names_def)
  have nmi: "name (ks ! i) = nm" using nmi0 i by (simp add: names_def)
  have oldi: "is_old (ks ! i)" using nmi nm_suf by (simp add: is_old_def)
  define ks1 where "ks1 = take i ks @ drop (Suc i) ks"
  define obj1 where "obj1 = obj\<lparr>shape_keys := (if ks1 = [] then None else Some ks1),
                                 shapenr := (if 0 < i then i else 1)\<rparr>"
  have rm: "shape_key_remove (set_active_shape_key_index i obj) = Inr obj1"
    unfolding obj1_def ks1_def by (rule shape_key_remove_at[OF Cons.prems(1) i])
  have step: "delete_old_loop (nm # rest) (obj, d) = delete_old_loop rest (obj1, Suc d)"
    using Cons.prems(1) nm_in idx rm by (simp add: rbind_def)
  have F: "filter (\<lambda>kb. \<not> is_old kb) ks1 = filter (\<lambda>kb. \<not> is_old kb) ks"
    unfolding ks1_def by (rule remove_old_entry(1)[OF i oldi])
  have "mset (old_names ks) = add_mset nm (mset (old_names ks1))"
    unfolding ks1_def using remove_old_entry(2)[OF i oldi] nmi by simp
  then have M: "mset rest = mset (old_names ks1)"
    using Cons.prems(2) by simp
  show ?case
  proof (cases "ks1 = []")
    case True
    then have "rest = []" using M by (simp add: old_names_def names_def)
    moreover have "filter (\<lambda>kb. \<not> is_old kb) ks = []" using F True by simp
    ultimately show ?thesis
      unfolding step using True by (simp add: obj1_def)
  next
    case False
    then have sk1: "shape_keys obj1 = Some ks1" by (simp add: obj1_def)
    from Cons.IH[OF sk1 M, of "Suc d"] obtain obj' where
      r: "delete_old_loop rest (obj1, Suc d) = Inr (obj', Suc d + length rest)"
      and s: "shape_keys obj' = (if rest \<noteq> [] \<and> filter (\<lambda>kb. \<not> is_old kb) ks1 = [] then None
                                else Some (filter (\<lambda>kb. \<not> is_old kb) ks1))"
      and f: "obj_type obj' = obj_type obj1" "mode obj' = mode obj1" "vertex_groups obj' = vertex_groups obj1"
      by blast
    have ne: "rest = [] \<Longrightarrow> filter (\<lambda>kb. \<not> is_old kb) ks1 \<noteq> []"
    proof -
      assume "rest = []"
      then have "old_names ks1 = []" using M by simp
      then show ?thesis using False by (simp add: filter_not_old_id)
    qed
    have s': "shape_keys obj' = (if filter (\<lambda>kb. \<not> is_old kb) ks = [] then None
                                else Some (filter (\<lambda>kb. \<not> is_old kb) ks))"
      using s ne F by (cases "rest = []") simp_all
    show ?thesis
      unfolding step using r s' f by (simp add: obj1_def)
  qed
qed

lemma delete_old_result:
  assumes "shape_keys ob = Some ks"
  shows "\<exists>ob'. delete_old_shapekeys (Some ob) = Inr (Some ob', Some (length (filter is_old ks)))
           \<and> shape_keys ob' = (if filter is_old ks \<noteq> [] \<and> filter (\<lambda>kb. \<not> is_old kb) ks = [] then None
                               else Some (filter (\<lambda>kb. \<not> is_old kb) ks))
           \<and> obj_type ob' = obj_type ob \<and> mode ob' = mode ob
           \<and> vertex_groups ob' = vertex_groups ob"
proof -
  have m: "mset (rev (old_names ks)) = mset (old_names ks)" by simp
  from delete_old_loop_ok[OF assms m, of 0] obtain ob' where
    r: "delete_old_loop (rev (old_names ks)) (ob, 0) = Inr (ob', 0 + length (rev (old_names ks)))"
    and s: "shape_keys ob' = (if rev (old_names ks) \<noteq> [] \<and> filter (\<lambda>kb. \<not> is_old kb) ks = [] then None
                                else Some (filter (\<lambda>kb. \<not> is_old kb) ks))"
    and f: "obj_type ob' = obj_type ob" "mode ob' = mode ob" "vertex_groups ob' = vertex_groups ob"
    by blast
  have l: "length (rev (old_names ks)) = length (filter is_old ks)"
    by (simp add: old_names_filter)
  have e: "(rev (old_names ks) \<noteq> []) = (filter is_old ks \<noteq> [])"
    by (simp add: old_names_filter)
  have "delete_old_shapekeys (Some ob) = Inr (Some ob', Some (length (filter is_old ks)))"
    using assms r l by (simp add: delete_old_shapekeys_def rbind_def)
  then show ?thesis using s f e by auto
qed

lemma delete_old_nothing_left:
  assumes "shape_keys ob = Some ks" "filter is_old ks = []"
  shows "delete_old_shapekeys (Some ob) = Inr (Some ob, Some 0)"
  using assms by (simp add: delete_old_shapekeys_def old_names_filter rbind_def)

lemma move_old_keeps_first:
  assumes "shape_keys ob = Some ks" "ks \<noteq> []"
  shows "\<exists>ob' v. move_old_shapekeys_to_bottom (Some ob) = Some (Inr (Some ob', v))
                \<and> length (entries ob') = length ks \<and> entries ob' ! 0 = ks ! 0"
  using sweep_props[OF old_indices_bound, of ks]
  by (simp add: move_old_result[OF assms(1)] entries_def)

section \<open>Properties of delete_old_shapekeys\<close>

text \<open>
  C6. For every object with a shapekey collection, \<^verbatim>\<open>delete_old_shapekeys\<close> returns the
  number of entries whose name ends with \<^verbatim>\<open>.old\<close> and leaves exactly the other
  entries, in their order, so no entry with the suffix remains. A call repeated at once
  changes nothing and deletes nothing: it returns 0, or \<^verbatim>\<open>None\<close> when the first call
  removed every entry and the host freed the emptied collection. For an object without a
  collection the call returns \<^verbatim>\<open>None\<close>, which is not the count 0.
\<close>

theorem delete_old_shapekeys_removes_all:
  "case shape_keys ob of
     None \<Rightarrow> delete_old_shapekeys (Some ob) = Inr (Some ob, None)
   | Some ks \<Rightarrow>
       (\<exists>ob'. delete_old_shapekeys (Some ob) = Inr (Some ob', Some (length (filter is_old ks)))
            \<and> entries ob' = filter (\<lambda>kb. \<not> is_old kb) ks
            \<and> delete_old_shapekeys (Some ob') =
                Inr (Some ob', if shape_keys ob' = None then None else Some 0))"
proof (cases "shape_keys ob")
  case None
  then show ?thesis by (simp add: delete_old_shapekeys_def)
next
  case (Some ks)
  from delete_old_result[OF Some] obtain ob' where
    r: "delete_old_shapekeys (Some ob) = Inr (Some ob', Some (length (filter is_old ks)))"
    and s: "shape_keys ob' = (if filter is_old ks \<noteq> [] \<and> filter (\<lambda>kb. \<not> is_old kb) ks = [] then None
                               else Some (filter (\<lambda>kb. \<not> is_old kb) ks))"
    by blast
  have e: "entries ob' = filter (\<lambda>kb. \<not> is_old kb) ks"
    using s by (simp add: entries_def)
  have again: "delete_old_shapekeys (Some ob') =
                 Inr (Some ob', if shape_keys ob' = None then None else Some 0)"
  proof (cases "shape_keys ob'")
    case None
    then show ?thesis by (simp add: delete_old_shapekeys_def)
  next
    case (Some ks')
    then have "ks' = filter (\<lambda>kb. \<not> is_old kb) ks" using e by (simp add: entries_def)
    then have "filter is_old ks' = []" by (simp add: filter_empty_conv)
    from delete_old_nothing_left[OF Some this] show ?thesis using Some by simp
  qed
  from r e again show ?thesis using Some by auto
qed

theorem delete_old_shapekeys_removes_all_witness:
  "(\<exists>ob'. delete_old_shapekeys (Some (example_object [''Basis'', ''A.old'', ''B'', ''C.old''] 1 [])) =
            Inr (Some ob', Some 2)
        \<and> entries ob' = map plain_key [''Basis'', ''B'']
        \<and> delete_old_shapekeys (Some ob') = Inr (Some ob', Some 0))
   \<and> delete_old_shapekeys (Some ((example_object [] 0 [])\<lparr>shape_keys := None\<rparr>)) =
        Inr (Some ((example_object [] 0 [])\<lparr>shape_keys := None\<rparr>), None)"
proof -
  define ks where "ks = map plain_key [''Basis'', ''A.old'', ''B'', ''C.old'']"
  have h: "shape_keys (example_object [''Basis'', ''A.old'', ''B'', ''C.old''] 1 []) = Some ks"
    by (simp add: example_object_def ks_def)
  have c: "length (filter is_old ks) = 2"
    by (simp add: ks_def plain_key_def is_old_def endswith_def)
  have e: "filter (\<lambda>kb. \<not> is_old kb) ks = map plain_key [''Basis'', ''B'']"
    by (simp add: ks_def plain_key_def is_old_def endswith_def)
  from delete_old_shapekeys_removes_all[of "example_object [''Basis'', ''A.old'', ''B'', ''C.old''] 1 []"]
  obtain ob' where
    r: "delete_old_shapekeys (Some (example_object [''Basis'', ''A.old'', ''B'', ''C.old''] 1 [])) =
          Inr (Some ob', Some (length (filter is_old ks)))"
    and en: "entries ob' = filter (\<lambda>kb. \<not> is_old kb) ks"
    and ag: "delete_old_shapekeys (Some ob') =
               Inr (Some ob', if shape_keys ob' = None then None else Some 0)"
    unfolding h by auto
  have "shape_keys ob' \<noteq> None"
    using en e by (auto simp: entries_def split: option.splits)
  then have first: "\<exists>ob'. delete_old_shapekeys (Some (example_object [''Basis'', ''A.old'', ''B'', ''C.old''] 1 [])) =
            Inr (Some ob', Some 2)
        \<and> entries ob' = map plain_key [''Basis'', ''B'']
        \<and> delete_old_shapekeys (Some ob') = Inr (Some ob', Some 0)"
    using r en ag c e by auto
  have second: "delete_old_shapekeys (Some ((example_object [] 0 [])\<lparr>shape_keys := None\<rparr>)) =
        Inr (Some ((example_object [] 0 [])\<lparr>shape_keys := None\<rparr>), None)"
    using delete_old_shapekeys_removes_all[of "(example_object [] 0 [])\<lparr>shape_keys := None\<rparr>"]
    by simp
  from first second show ?thesis by (rule conjI)
qed

text \<open>
  C3. The entry at position 0 is to stay at position 0 under both sweeps, also when its
  name ends with \<^verbatim>\<open>.old\<close>. \<^verbatim>\<open>move_old_shapekeys_to_bottom\<close> skips position 0
  (\<open>move_old_keeps_first\<close>); \<^verbatim>\<open>delete_old_shapekeys\<close> has no such test: on the
  collection Basis.old, B it removes the first entry and B becomes the entry at
  position 0.
\<close>

theorem delete_old_removes_first_entry:
  "delete_old_shapekeys (Some (example_object [''Basis.old'', ''B''] 1 [])) =
     Inr (Some (example_object [''B''] 1 []), Some 1)"
  by (simp add: delete_old_shapekeys_def example_object_def old_names_def names_def plain_key_def
       endswith_def rbind_def shape_key_remove_def set_active_shape_key_index_def Let_def)

section \<open>Properties of get_missing_shapekeys\<close>



section \<open>Properties of split_shapekey_by_groups: failed preconditions\<close>

text \<open>
  C9. Without an object, without a collection, without an active shapekey, or when one
  of the two vertex groups does not exist, \<^verbatim>\<open>split_shapekey_by_groups\<close> returns
  \<^verbatim>\<open>None\<close>, raises nothing and leaves the object as it was.
\<close>

theorem split_precondition_failure:
  assumes "obj = None
         \<or> (\<exists>ob. obj = Some ob \<and>
               (shape_keys ob = None \<or> active_shape_key ob = None
                \<or> group_a_name \<notin> set (vertex_groups ob) \<or> group_b_name \<notin> set (vertex_groups ob)))"
  shows "split_shapekey_by_groups obj group_a_name group_b_name = Inr (obj, None)"
  using assms by (auto simp: split_shapekey_by_groups_def split: option.splits)

theorem split_precondition_failure_witness:
  "split_shapekey_by_groups None ''L'' ''R'' = Inr (None, None)
   \<and> split_shapekey_by_groups (Some ((example_object [] 0 [''L'', ''R''])\<lparr>shape_keys := None\<rparr>)) ''L'' ''R''
       = Inr (Some ((example_object [] 0 [''L'', ''R''])\<lparr>shape_keys := None\<rparr>), None)
   \<and> split_shapekey_by_groups (Some (example_object [''Basis'', ''N''] 0 [''L'', ''R''])) ''L'' ''R''
       = Inr (Some (example_object [''Basis'', ''N''] 0 [''L'', ''R'']), None)
   \<and> split_shapekey_by_groups (Some (example_object [''Basis'', ''N''] 2 [''L''])) ''L'' ''R''
       = Inr (Some (example_object [''Basis'', ''N''] 2 [''L'']), None)
   \<and> split_shapekey_by_groups (Some (example_object [''Basis'', ''N''] 2 [''R''])) ''L'' ''R''
       = Inr (Some (example_object [''Basis'', ''N''] 2 [''R'']), None)"
  using split_precondition_failure[of None "''L''" "''R''"]
        split_precondition_failure[of "Some ((example_object [] 0 [''L'', ''R''])\<lparr>shape_keys := None\<rparr>)" "''L''" "''R''"]
        split_precondition_failure[of "Some (example_object [''Basis'', ''N''] 0 [''L'', ''R''])" "''L''" "''R''"]
        split_precondition_failure[of "Some (example_object [''Basis'', ''N''] 2 [''L''])" "''L''" "''R''"]
        split_precondition_failure[of "Some (example_object [''Basis'', ''N''] 2 [''R''])" "''L''" "''R''"]
  by (simp add: example_object_def active_shape_key_def)

section \<open>The operators on entries with the suffix\<close>

text \<open>
  C10. When \<^verbatim>\<open>poll\<close> holds, the utility called by \<^verbatim>\<open>execute\<close> returns a number and
  not \<^verbatim>\<open>None\<close>, for the move operator as for the delete operator: the comparison
  with 0 is between integers, and \<^verbatim>\<open>execute\<close> reports and finishes.
\<close>

theorem old_operators_never_compare_None:
  "(PU_OT_move_old_shapekeys_poll ctx \<longrightarrow>
      (\<exists>obj' m. move_old_shapekeys_to_bottom (active_object ctx) = Some (Inr (obj', Some m))
         \<and> PU_OT_move_old_shapekeys_execute ctx =
             Some (Inr (ctx\<lparr>active_object := obj'\<rparr>,
                        (if m > 0 then Moved_to_bottom m else No_old_shapekeys_found), FINISHED))))
   \<and> (PU_OT_delete_old_shapekeys_poll ctx \<longrightarrow>
      (\<exists>obj' d. delete_old_shapekeys (active_object ctx) = Inr (obj', Some d)
         \<and> PU_OT_delete_old_shapekeys_execute ctx =
             Inr (ctx\<lparr>active_object := obj'\<rparr>,
                  (if d > 0 then Deleted_shapekeys d else No_old_shapekeys_found), FINISHED)))"
proof (intro conjI impI)
  assume "PU_OT_move_old_shapekeys_poll ctx"
  then obtain ob ks where a: "active_object ctx = Some ob" and k: "shape_keys ob = Some ks"
    by (auto simp: PU_OT_move_old_shapekeys_poll_def split: option.splits)
  show "\<exists>obj' m. move_old_shapekeys_to_bottom (active_object ctx) = Some (Inr (obj', Some m))
         \<and> PU_OT_move_old_shapekeys_execute ctx =
             Some (Inr (ctx\<lparr>active_object := obj'\<rparr>,
                        (if m > 0 then Moved_to_bottom m else No_old_shapekeys_found), FINISHED))"
    unfolding PU_OT_move_old_shapekeys_execute_def a move_old_result[OF k] by simp
next
  assume "PU_OT_delete_old_shapekeys_poll ctx"
  then obtain ob ks where a: "active_object ctx = Some ob" and k: "shape_keys ob = Some ks"
    by (auto simp: PU_OT_delete_old_shapekeys_poll_def split: option.splits)
  from delete_old_result[OF k] obtain ob' where
    r: "delete_old_shapekeys (Some ob) = Inr (Some ob', Some (length (filter is_old ks)))" by blast
  show "\<exists>obj' d. delete_old_shapekeys (active_object ctx) = Inr (obj', Some d)
         \<and> PU_OT_delete_old_shapekeys_execute ctx =
             Inr (ctx\<lparr>active_object := obj'\<rparr>,
                  (if d > 0 then Deleted_shapekeys d else No_old_shapekeys_found), FINISHED)"
    unfolding PU_OT_delete_old_shapekeys_execute_def a r by simp
qed

theorem old_operators_never_compare_None_witness:
  "PU_OT_move_old_shapekeys_poll (example_context (Some (example_object [''Basis'', ''A.old''] 1 [])) None [])
   \<and> PU_OT_delete_old_shapekeys_poll (example_context (Some (example_object [''Basis'', ''A.old''] 1 [])) None [])
   \<and> (\<exists>obj' m. PU_OT_move_old_shapekeys_execute
                    (example_context (Some (example_object [''Basis'', ''A.old''] 1 [])) None []) =
                  Some (Inr ((example_context (Some (example_object [''Basis'', ''A.old''] 1 [])) None [])
                               \<lparr>active_object := obj'\<rparr>,
                             (if m > 0 then Moved_to_bottom m else No_old_shapekeys_found), FINISHED)))
   \<and> (\<exists>obj' d. PU_OT_delete_old_shapekeys_execute
                    (example_context (Some (example_object [''Basis'', ''A.old''] 1 [])) None []) =
                  Inr ((example_context (Some (example_object [''Basis'', ''A.old''] 1 [])) None [])
                         \<lparr>active_object := obj'\<rparr>,
                       (if d > 0 then Deleted_shapekeys d else No_old_shapekeys_found), FINISHED))"
proof -
  have p1: "PU_OT_move_old_shapekeys_poll
              (example_context (Some (example_object [''Basis'', ''A.old''] 1 [])) None [])"
    by (simp add: PU_OT_move_old_shapekeys_poll_def example_context_def example_object_def)
  have p2: "PU_OT_delete_old_shapekeys_poll
              (example_context (Some (example_object [''Basis'', ''A.old''] 1 [])) None [])"
    by (simp add: PU_OT_delete_old_shapekeys_poll_def example_context_def example_object_def)
  from old_operators_never_compare_None
         [of "example_context (Some (example_object [''Basis'', ''A.old''] 1 [])) None []"] p1 p2
  show ?thesis by blast
qed

section \<open>Properties of PU_OT_create_missing\<close>

lemma host_name_storable:
  assumes "storable nm" "nm \<notin> set taken"
  shows "host_name taken nm = nm"
  using assms by (simp add: host_name_def storable_def unique_name_def Let_def)

lemma utf8_skip_ascii: "(of_char c :: nat) < 128 \<Longrightarrow> utf8_skip c = 1"
  by (simp add: utf8_skip_def Let_def)

lemma strncpy_utf8_ascii:
  "\<forall>c\<in>set s. 0 < (of_char c :: nat) \<and> (of_char c :: nat) < 128 \<Longrightarrow> length s < maxncpy
     \<Longrightarrow> strncpy_utf8 maxncpy s = s"
proof (induction s arbitrary: maxncpy)
  case Nil
  then show ?case by (simp add: strncpy_utf8.simps)
next
  case (Cons c cs)
  have k: "utf8_skip c = 1" using Cons.prems(1) by (simp add: utf8_skip_ascii)
  have "strncpy_utf8 (maxncpy - 1) cs = cs"
    by (rule Cons.IH) (use Cons.prems in auto)
  moreover have "0 < (of_char c :: nat)" using Cons.prems(1) by simp
  ultimately show ?case
    using Cons.prems(2) by (simp add: strncpy_utf8.simps k)
qed

lemma storable_ascii:
  "s \<noteq> [] \<Longrightarrow> \<forall>c\<in>set s. 0 < (of_char c :: nat) \<and> (of_char c :: nat) < 128
     \<Longrightarrow> length s \<le> 63 \<Longrightarrow> storable s"
  by (simp add: storable_def strncpy_utf8_ascii)













section \<open>Properties of split_shapekey_by_groups: the split\<close>

lemma index_of_append:
  "x \<notin> set xs \<Longrightarrow> index_of (xs @ x # ys) x = Some (length xs)"
  by (induction xs) auto

lemma names_append: "names (xs @ ys) = names xs @ names ys"
  by (simp add: names_def)

lemma names_cleared: "names (map cleared ks) = names ks"
  by (simp add: names_def cleared_def comp_def)

lemma shape_key_clear_eq:
  "shape_keys obj = Some ks \<Longrightarrow> shape_key_clear obj = obj\<lparr>shape_keys := Some (map cleared ks)\<rparr>"
proof -
  assume a: "shape_keys obj = Some ks"
  have "(\<lambda>kb. kb\<lparr>kb_value := 0\<rparr>) = cleared" by (rule ext) (simp add: cleared_def)
  then show ?thesis using a by (simp add: shape_key_clear_def)
qed

lemma move_up_once:
  assumes "shape_keys obj = Some (P @ y # x # Q)" "shapenr obj = Suc (Suc (length P))"
  shows "shape_key_move UP obj = Inr (obj\<lparr>shape_keys := Some (P @ x # y # Q), shapenr := Suc (length P)\<rparr>)"
proof -
  let ?l = "P @ y # x # Q"
  have len: "length ?l = Suc (Suc (length P + length Q))" by simp
  have m: "(length ?l + Suc (length P) - 1) mod length ?l = length P"
    unfolding len by (metis add_Suc_right diff_Suc_1 mod_add_self1 mod_less add.commute
        less_add_Suc1 less_SucI add_Suc)
  have nth: "?l ! Suc (length P) = x"
    by (simp add: nth_append)
  have lm: "list_move ?l (Suc (length P)) (length P) = P @ x # y # Q"
    unfolding list_move_def Let_def nth by simp
  show ?thesis
    using assms m lm by (simp add: shape_key_move_def Let_def)
qed

lemma repeat_move_up:
  assumes "shape_keys obj = Some (P @ x # Q)" "shapenr obj = Suc (length P)" "k \<le> length P"
  shows "repeat k (shape_key_move UP) obj =
           Inr (obj\<lparr>shape_keys := Some (take (length P - k) P @ x # drop (length P - k) P @ Q),
                     shapenr := Suc (length P - k)\<rparr>)"
  using assms
proof (induction k arbitrary: obj P Q)
  case 0
  then have "obj\<lparr>shape_keys := Some (P @ x # Q), shapenr := Suc (length P)\<rparr> = obj" by simp
  then show ?case by simp
next
  case (Suc k)
  then obtain P0 y where P: "P = P0 @ [y]" by (cases P rule: rev_cases) auto
  define obj1 where "obj1 = obj\<lparr>shape_keys := Some (P0 @ x # y # Q), shapenr := Suc (length P0)\<rparr>"
  have "shape_key_move UP obj = Inr obj1"
    unfolding obj1_def by (rule move_up_once) (use Suc.prems P in simp_all)
  then have step: "repeat (Suc k) (shape_key_move UP) obj = repeat k (shape_key_move UP) obj1"
    by (simp add: rbind_def)
  have "repeat k (shape_key_move UP) obj1 =
           Inr (obj1\<lparr>shape_keys := Some (take (length P0 - k) P0 @ x # drop (length P0 - k) P0 @ y # Q),
                      shapenr := Suc (length P0 - k)\<rparr>)"
    by (rule Suc.IH) (use Suc.prems P in \<open>simp_all add: obj1_def\<close>)
  then show ?case
    unfolding step using Suc.prems(3) by (simp add: P obj1_def)
qed

lemma set_active_name_free:
  assumes "shape_keys obj = Some (L @ [kb])" "shapenr obj = Suc (length L)" "nm \<notin> set (names L)"
      and "storable nm"
  shows "set_active_name nm obj = Inr (obj\<lparr>shape_keys := Some (L @ [kb\<lparr>name := nm\<rparr>])\<rparr>)"
  using assms by (simp add: set_active_name_def Let_def host_name_storable)

lemma split_round_result:
  assumes "shape_keys obj = Some (pre @ k # post)" "name k = N" "N \<notin> set (names pre)"
      and "N @ g \<notin> set (names (pre @ k # post))" "steps \<le> length post"
      and "storable (N @ g)"
  shows "split_round N steps g obj =
           Inr (obj\<lparr>shape_keys :=
                       Some (map cleared pre @ (cleared k)\<lparr>kb_value := 1, vertex_group := g\<rparr>
                             # take (length post - steps) (map cleared post)
                             @ new_key (N @ g) # drop (length post - steps) (map cleared post)),
                     shapenr := Suc (Suc (length pre + (length post - steps)))\<rparr>,
                N @ g)"
proof -
  define ks where "ks = map cleared (pre @ k # post)"
  define obj1 where "obj1 = obj\<lparr>shape_keys := Some ks\<rparr>"
  have c: "shape_key_clear obj = obj1"
    unfolding obj1_def ks_def by (rule shape_key_clear_eq[OF assms(1)])
  have nk: "names ks = names pre @ N # names post"
    using assms(2) by (simp add: ks_def names_def cleared_def comp_def)
  have idx: "index_of (names ks) N = Some (length pre)"
    unfolding nk using index_of_append[OF assms(3), of "names post"] by (simp add: names_def)
  define mk where "mk = (cleared k)\<lparr>kb_value := 1, vertex_group := g\<rparr>"
  define L where "L = map cleared pre @ mk # map cleared post"
  have upd: "ks[length pre := (ks ! length pre)\<lparr>kb_value := 1, vertex_group := g\<rparr>] = L"
    by (simp add: ks_def L_def mk_def nth_append list_update_append)
  define obj3 where "obj3 = obj\<lparr>shape_keys := Some L, shapenr := Suc (length pre)\<rparr>"
  have o3: "(set_active_shape_key_index (length pre) obj1)
              \<lparr>shape_keys := Some (ks[length pre := (ks ! length pre)\<lparr>kb_value := 1, vertex_group := g\<rparr>])\<rparr> = obj3"
    unfolding upd by (simp add: obj1_def obj3_def set_active_shape_key_index_def)
  obtain tmp where add: "shape_key_add_op obj3 = obj3\<lparr>shape_keys := Some (L @ [tmp]), shapenr := Suc (length L)\<rparr>"
    and tmpv: "kb_value tmp = 1" "vertex_group tmp = []"
    by (simp add: shape_key_add_op_def obj3_def Let_def)
  define obj4 where "obj4 = obj3\<lparr>shape_keys := Some (L @ [tmp]), shapenr := Suc (length L)\<rparr>"
  have nL: "names L = names pre @ N # names post"
    using assms(2) by (simp add: L_def mk_def names_def cleared_def comp_def)
  have free: "N @ g \<notin> set (names L)"
    using assms(4) assms(2) unfolding nL by (simp add: names_def)
  have ren: "set_active_name (N @ g) obj4 = Inr (obj4\<lparr>shape_keys := Some (L @ [tmp\<lparr>name := N @ g\<rparr>])\<rparr>)"
    by (rule set_active_name_free) (use free assms(6) in \<open>simp_all add: obj4_def\<close>)
  have tmpn: "tmp\<lparr>name := N @ g\<rparr> = new_key (N @ g)"
    using tmpv by (simp add: new_key_def)
  define obj5 where "obj5 = obj4\<lparr>shape_keys := Some (L @ [new_key (N @ g)])\<rparr>"
  have ren': "set_active_name (N @ g) obj4 = Inr obj5"
    using ren by (simp add: tmpn obj5_def)
  have st: "steps \<le> length L" using assms(5) by (simp add: L_def)
  have mv: "repeat steps (shape_key_move UP) obj5 =
              Inr (obj5\<lparr>shape_keys := Some (take (length L - steps) L @ new_key (N @ g) # drop (length L - steps) L),
                         shapenr := Suc (length L - steps)\<rparr>)"
    using repeat_move_up[of obj5 L "new_key (N @ g)" "[]" steps] st
    by (simp add: obj5_def obj4_def)
  have lenL: "length L - steps = Suc (length pre + (length post - steps))"
    using assms(5) by (simp add: L_def)
  have tk: "take (Suc (length pre + (length post - steps))) L
              = map cleared pre @ mk # take (length post - steps) (map cleared post)"
    by (simp add: L_def)
  have dr: "drop (Suc (length pre + (length post - steps))) L
              = drop (length post - steps) (map cleared post)"
    by (simp add: L_def)
  have fin: "obj5\<lparr>shape_keys := Some (take (length L - steps) L @ new_key (N @ g) # drop (length L - steps) L),
                  shapenr := Suc (length L - steps)\<rparr>
             = obj\<lparr>shape_keys :=
                       Some (map cleared pre @ mk
                             # take (length post - steps) (map cleared post)
                             @ new_key (N @ g) # drop (length post - steps) (map cleared post)),
                     shapenr := Suc (Suc (length pre + (length post - steps)))\<rparr>"
    unfolding lenL tk dr by (simp add: obj5_def obj4_def obj3_def)
  have sk1: "shape_keys (shape_key_clear obj) = Some ks" by (simp add: c obj1_def)
  have "split_round N steps g obj =
          rbind (set_active_name (N @ g) obj4) (\<lambda>obj5.
            rbind (repeat steps (shape_key_move UP) obj5) (\<lambda>obj6. Inr (obj6, N @ g)))"
    unfolding split_round_def Let_def sk1 option.case idx
    unfolding c o3 add obj4_def by (rule refl)
  also have "\<dots> = Inr (obj\<lparr>shape_keys :=
                       Some (map cleared pre @ mk
                             # take (length post - steps) (map cleared post)
                             @ new_key (N @ g) # drop (length post - steps) (map cleared post)),
                     shapenr := Suc (Suc (length pre + (length post - steps)))\<rparr>, N @ g)"
    by (simp only: ren' rbind_def sum.case mv fin)
  finally show ?thesis unfolding mk_def .
qed

lemma split_restore_result:
  assumes "shape_keys obj = Some (pre @ k # post)" "name k = N" "N \<notin> set (names pre)"
  shows "split_restore N (length pre) obj =
           Inr (obj\<lparr>shape_keys :=
                       Some (map cleared pre @ (cleared k)\<lparr>vertex_group := []\<rparr> # map cleared post),
                     shapenr := Suc (length pre)\<rparr>)"
proof -
  define ks where "ks = map cleared (pre @ k # post)"
  have c: "shape_key_clear obj = obj\<lparr>shape_keys := Some ks\<rparr>"
    unfolding ks_def by (rule shape_key_clear_eq[OF assms(1)])
  have nk: "names ks = names pre @ N # names post"
    using assms(2) by (simp add: ks_def names_def cleared_def comp_def)
  have idx: "index_of (names ks) N = Some (length pre)"
    unfolding nk using index_of_append[OF assms(3), of "names post"] by (simp add: names_def)
  have upd: "ks[length pre := (ks ! length pre)\<lparr>vertex_group := []\<rparr>]
               = map cleared pre @ (cleared k)\<lparr>vertex_group := []\<rparr> # map cleared post"
    by (simp add: ks_def nth_append list_update_append)
  show ?thesis
    unfolding split_restore_def Let_def c
    by (simp add: idx upd rbind_def set_active_shape_key_index_def)
qed

lemma active_decompose:
  assumes "shape_keys ob = Some ks" "active_shape_key ob = Some kb"
  shows "ks = take (active_shape_key_index ob) ks @ kb # drop (Suc (active_shape_key_index ob)) ks
       \<and> active_shape_key_index ob < length ks
       \<and> shapenr ob = Suc (active_shape_key_index ob)"
proof -
  from assms have r: "1 \<le> shapenr ob" "shapenr ob \<le> length ks" and k: "kb = ks ! (shapenr ob - 1)"
    by (auto simp: active_shape_key_def split: if_splits)
  then have i: "active_shape_key_index ob < length ks"
    by (simp add: active_shape_key_index_def)
  from id_take_nth_drop[OF i] k show ?thesis
    using r i by (simp add: active_shape_key_index_def)
qed

text \<open>
  C4 (as amended). Let the object have a collection with unique names and an active
  shapekey named N at position i, let the vertex groups A and B both exist and differ,
  let neither N+A nor N+B be a name of the collection yet, and let the host store both
  names as given (at most 63 bytes). Then \<^verbatim>\<open>split_shapekey_by_groups\<close> returns the pair
  (N+A, N+B) and leaves the collection with exactly two more entries, named N+A and N+B,
  at the positions i+1 and i+2; the original entry is at position i with an empty mask,
  the active index is i again, and every weight is zero.
\<close>

theorem split_creates_two_after_original:
  assumes "shape_keys ob = Some ks" "distinct (names ks)"
      and "active_shape_key ob = Some kb"
      and "group_a_name \<in> set (vertex_groups ob)" "group_b_name \<in> set (vertex_groups ob)"
      and "name kb @ group_a_name \<notin> set (names ks)" "name kb @ group_b_name \<notin> set (names ks)"
      and "group_a_name \<noteq> group_b_name"
      and "storable (name kb @ group_a_name)" "storable (name kb @ group_b_name)"
  shows "split_shapekey_by_groups (Some ob) group_a_name group_b_name =
           Inr (Some (ob\<lparr>shape_keys :=
                            Some (map cleared (take (active_shape_key_index ob) ks)
                                  @ [(cleared kb)\<lparr>vertex_group := []\<rparr>,
                                     plain_key (name kb @ group_a_name),
                                     plain_key (name kb @ group_b_name)]
                                  @ map cleared (drop (Suc (active_shape_key_index ob)) ks))\<rparr>),
                Some (name kb @ group_a_name, name kb @ group_b_name))"
proof -
  define i where "i = active_shape_key_index ob"
  define pre where "pre = take i ks"
  define post where "post = drop (Suc i) ks"
  define N where "N = name kb"
  from active_decompose[OF assms(1,3)]
  have ks: "ks = pre @ kb # post" and i: "i < length ks" and nr: "shapenr ob = Suc i"
    by (simp_all add: i_def pre_def post_def)
  have lp: "length pre = i" using i by (simp add: pre_def)
  have lpost: "length ks - i - 1 = length post" using i by (simp add: post_def)
  have nks: "names ks = names pre @ N # names post"
    by (subst ks) (simp add: names_def N_def)
  have Npre: "N \<notin> set (names pre)" and Npost: "N \<notin> set (names post)"
    using assms(2) unfolding nks by auto
  have sk: "shape_keys ob = Some (pre @ kb # post)" using assms(1) ks by simp
  have sa: "storable (N @ group_a_name)" and sb: "storable (N @ group_b_name)"
    using assms(9,10) by (simp_all add: N_def)
  have fa: "N @ group_a_name \<notin> set (names (pre @ kb # post))"
    using assms(6) ks by (simp add: N_def)
  \<comment> \<open>first round\<close>
  define l1 where "l1 = map cleared pre @ (cleared kb)\<lparr>kb_value := 1, vertex_group := group_a_name\<rparr>
                         # new_key (N @ group_a_name) # map cleared post"
  define ob1 where "ob1 = ob\<lparr>shape_keys := Some l1, shapenr := Suc (Suc (length pre))\<rparr>"
  have r1: "split_round N (length post) group_a_name ob = Inr (ob1, N @ group_a_name)"
    using split_round_result[OF sk _ Npre fa _ sa, of "length post"]
    by (simp add: N_def ob1_def l1_def)
  \<comment> \<open>second round\<close>
  define k2 where "k2 = (cleared kb)\<lparr>kb_value := 1, vertex_group := group_a_name\<rparr>"
  define post2 where "post2 = new_key (N @ group_a_name) # map cleared post"
  have sk1: "shape_keys ob1 = Some (map cleared pre @ k2 # post2)"
    by (simp add: ob1_def l1_def k2_def post2_def)
  have nk2: "name k2 = N" by (simp add: k2_def cleared_def N_def)
  have Npre2: "N \<notin> set (names (map cleared pre))" using Npre by (simp add: names_cleared)
  have fb: "N @ group_b_name \<notin> set (names (map cleared pre @ k2 # post2))"
    using assms(7,8) unfolding nks
    by (simp add: names_append names_cleared nk2 post2_def names_def new_key_def N_def cleared_def comp_def)
  define l2 where "l2 = map cleared pre @ (cleared kb)\<lparr>kb_value := 1, vertex_group := group_b_name\<rparr>
                         # plain_key (N @ group_a_name) # new_key (N @ group_b_name) # map cleared post"
  define ob2 where "ob2 = ob\<lparr>shape_keys := Some l2, shapenr := Suc (Suc (Suc (length pre)))\<rparr>"
  have r2: "split_round N (length post) group_b_name ob1 = Inr (ob2, N @ group_b_name)"
    using split_round_result[OF sk1 nk2 Npre2 fb _ sb, of "length post"]
    by (simp add: ob2_def l2_def ob1_def k2_def post2_def cleared_def plain_key_def new_key_def comp_def)
  \<comment> \<open>the statements after the loop\<close>
  define k3 where "k3 = (cleared kb)\<lparr>kb_value := 1, vertex_group := group_b_name\<rparr>"
  define post3 where "post3 = plain_key (N @ group_a_name) # new_key (N @ group_b_name) # map cleared post"
  have sk2: "shape_keys ob2 = Some (map cleared pre @ k3 # post3)"
    by (simp add: ob2_def l2_def k3_def post3_def)
  have nk3: "name k3 = N" by (simp add: k3_def cleared_def N_def)
  define ob3 where "ob3 = ob\<lparr>shape_keys :=
                            Some (map cleared pre
                                  @ [(cleared kb)\<lparr>vertex_group := []\<rparr>,
                                     plain_key (N @ group_a_name),
                                     plain_key (N @ group_b_name)]
                                  @ map cleared post)\<rparr>"
  have r3: "split_restore N i ob2 = Inr ob3"
    using split_restore_result[OF sk2 nk3 Npre2] lp nr
    by (simp add: ob3_def ob2_def k3_def post3_def cleared_def plain_key_def new_key_def comp_def)
  have act: "active_shape_key ob = Some kb" by (rule assms(3))
  have "split_shapekey_by_groups (Some ob) group_a_name group_b_name =
          rbind (split_round N (length post) group_a_name ob) (\<lambda>(ob1, name_a).
          rbind (split_round N (length post) group_b_name ob1) (\<lambda>(ob2, name_b).
          rbind (split_restore N i ob2) (\<lambda>ob3.
          Inr (Some ob3, Some (name_a, name_b)))))"
    using assms(1,4,5) act lpost
    by (simp add: split_shapekey_by_groups_def Let_def N_def i_def)
  also have "\<dots> = Inr (Some ob3, Some (N @ group_a_name, N @ group_b_name))"
    by (simp add: r1 r2 r3 rbind_def)
  finally show ?thesis
    by (simp add: ob3_def N_def i_def pre_def post_def)
qed

theorem split_creates_two_after_original_witness:
  "shape_keys (example_object [''Basis'', ''N'', ''M''] 2 [''L'', ''R'']) = Some (map plain_key [''Basis'', ''N'', ''M''])
   \<and> distinct (names (map plain_key [''Basis'', ''N'', ''M'']))
   \<and> active_shape_key (example_object [''Basis'', ''N'', ''M''] 2 [''L'', ''R'']) = Some (plain_key ''N'')
   \<and> storable ''NL'' \<and> storable ''NR''
   \<and> split_shapekey_by_groups (Some (example_object [''Basis'', ''N'', ''M''] 2 [''L'', ''R''])) ''L'' ''R'' =
       Inr (Some (example_object [''Basis'', ''N'', ''NL'', ''NR'', ''M''] 2 [''L'', ''R'']),
            Some (''NL'', ''NR''))"
proof -
  let ?ob = "example_object [''Basis'', ''N'', ''M''] 2 [''L'', ''R'']"
  let ?ks = "map plain_key [''Basis'', ''N'', ''M'']"
  have h1: "shape_keys ?ob = Some ?ks" by (simp add: example_object_def)
  have h2: "distinct (names ?ks)" by (simp add: names_def plain_key_def)
  have h3: "active_shape_key ?ob = Some (plain_key ''N'')"
    by (simp add: active_shape_key_def example_object_def)
  have h4: "''L'' \<in> set (vertex_groups ?ob)" "''R'' \<in> set (vertex_groups ?ob)"
    by (simp_all add: example_object_def)
  have h5: "name (plain_key ''N'') @ ''L'' \<notin> set (names ?ks)"
           "name (plain_key ''N'') @ ''R'' \<notin> set (names ?ks)"
    by (simp_all add: names_def plain_key_def)
  have h6: "''L'' \<noteq> ''R''" by simp
  have s1: "storable ''NL''" by (rule storable_ascii) simp_all
  have s2: "storable ''NR''" by (rule storable_ascii) simp_all
  have h7: "storable (name (plain_key ''N'') @ ''L'')" "storable (name (plain_key ''N'') @ ''R'')"
    using s1 s2 by (simp_all add: plain_key_def)
  have "split_shapekey_by_groups (Some ?ob) ''L'' ''R'' =
       Inr (Some (example_object [''Basis'', ''N'', ''NL'', ''NR'', ''M''] 2 [''L'', ''R'']),
            Some (''NL'', ''NR''))"
    using split_creates_two_after_original[OF h1 h2 h3 h4 h5 h6 h7]
    by (simp add: example_object_def plain_key_def cleared_def active_shape_key_index_def)
  with h1 h2 h3 s1 s2 show ?thesis by simp
qed

text \<open>
  When N+A is already the name of an entry, the host stores the new entry under another
  name: on the collection Basis, N, NL with N active and the groups L and R, the entry
  created for L is named NL.001, while the call returns the pair (NL, NR).
\<close>

lemma eval_split_existing_name:
  "split_shapekey_by_groups (Some (example_object [''Basis'', ''N'', ''NL''] 2 [''L'', ''R''])) ''L'' ''R'' =
     Inr (Some (example_object [''Basis'', ''N'', ''NL.001'', ''NR'', ''NL''] 2 [''L'', ''R'']),
          Some (''NL'', ''NR''))"
  by code_simp

theorem split_existing_name_counterexample:
  "names_after (Some (split_shapekey_by_groups
       (Some (example_object [''Basis'', ''N'', ''NL''] 2 [''L'', ''R''])) ''L'' ''R''))
     = Some [''Basis'', ''N'', ''NL.001'', ''NR'', ''NL'']
   \<and> returned (Some (split_shapekey_by_groups
       (Some (example_object [''Basis'', ''N'', ''NL''] 2 [''L'', ''R''])) ''L'' ''R''))
     = Some (Some (''NL'', ''NR''))"
  unfolding eval_split_existing_name
  by (simp add: names_after_def returned_def example_object_def names_def plain_key_def)

end
